theory Spec2Isabelle
  imports Main "HOL-Library.Word" "HOL-Library.Multiset"
begin

unbundle bit_operations_syntax

section \<open>The unique IPv4 address counter (most\_effective\_solution.go)\<close>

text \<open>
  A shallow embedding of the Go program. A Go \<open>string\<close> is a sequence of bytes and is
  modelled as a \<open>char list\<close>; \<open>uint32\<close> is \<open>32 word\<close>, \<open>byte\<close> is \<open>8 word\<close>, and
  \<open>uint\<close> is taken to be 64 bits wide. A run-time panic (an index out of range) is the
  value \<open>None\<close>. The goroutines are modelled by a sequential schedule: every call of
  \<open>MarkIP\<close> runs under the lock of the one segment it touches, so a call is one atomic
  step on the bitmap, and the batches are handed to \<open>processBatch\<close> one after another.
\<close>

subsection \<open>Constants\<close>

type_synonym uint32 = "32 word"
type_synonym byte = "8 word"
type_synonym rune = "32 word"

definition BatchSize :: nat where
  "BatchSize = 250000"

definition MaxIP :: nat where
  "MaxIP = 2 ^ 32"

definition BitmapSegments :: nat where
  "BitmapSegments = 256"

definition BitsInByte :: nat where
  "BitsInByte = 8"

definition BytesPerSegment :: nat where
  "BytesPerSegment = MaxIP div BitmapSegments div BitsInByte"

subsection \<open>SegmentedBitmap\<close>

text \<open>
  The struct holds the array of 256 byte slices; the array of mutexes has no state of its
  own in a sequential schedule (each \<open>MarkIP\<close> locks and, by \<open>defer\<close>, unlocks the
  mutex of its segment) and is left out. A \<open>nil\<close> slice is the empty list.
\<close>

record SegmentedBitmap =
  segments :: "byte list list"

definition NewSegmentedBitmap :: SegmentedBitmap where
  "NewSegmentedBitmap = \<lparr>segments = replicate BitmapSegments (replicate BytesPerSegment 0)\<rparr>"

definition segmentIndex :: "uint32 \<Rightarrow> uint32" where
  "segmentIndex ipInt = ipInt div word_of_nat (MaxIP div BitmapSegments)"

definition localIP :: "uint32 \<Rightarrow> uint32" where
  "localIP ipInt = ipInt mod word_of_nat (MaxIP div BitmapSegments)"

definition byteIndex :: "uint32 \<Rightarrow> uint32" where
  "byteIndex ipInt = localIP ipInt div word_of_nat BitsInByte"

definition bitOffset :: "uint32 \<Rightarrow> uint32" where
  "bitOffset ipInt = localIP ipInt mod word_of_nat BitsInByte"

text \<open>
  \<open>MarkIP\<close> returns the reported flag and the bitmap after the call. Indexing the
  array of segments or a segment's slice out of range panics.
\<close>

definition MarkIP :: "SegmentedBitmap \<Rightarrow> uint32 \<Rightarrow> (bool \<times> SegmentedBitmap) option" where
  "MarkIP sb ipInt =
     (let si = unat (segmentIndex ipInt);
          bi = unat (byteIndex ipInt);
          mask = push_bit (unat (bitOffset ipInt)) (1 :: byte)
      in if si < length (segments sb) \<and> bi < length (segments sb ! si) then
           (if (segments sb ! si ! bi) AND mask \<noteq> 0 then Some (False, sb)
            else Some (True,
              sb\<lparr>segments :=
                (segments sb)[si := (segments sb ! si)[bi := (segments sb ! si ! bi) OR mask]]\<rparr>))
         else None)"

definition Cleanup :: "SegmentedBitmap \<Rightarrow> SegmentedBitmap" where
  "Cleanup sb = sb\<lparr>segments := map (\<lambda>_. []) (segments sb)\<rparr>"

subsection \<open>ipToInt\<close>

text \<open>
  \<open>range\<close> over a string yields its UTF-8 code points; a byte that starts no valid
  encoding yields U+FFFD and advances by one byte. \<open>decoderune c0 cs\<close> decodes the code
  point at the head of \<open>c0 # cs\<close> and gives its width in bytes.
\<close>

definition in_range :: "rune \<Rightarrow> rune \<Rightarrow> char \<Rightarrow> bool" where
  "in_range lo hi c = (lo \<le> of_char c \<and> of_char c \<le> hi)"

definition accept_lo :: "rune \<Rightarrow> rune" where
  "accept_lo b0 = (if b0 = 0xE0 then 0xA0 else if b0 = 0xF0 then 0x90 else 0x80)"

definition accept_hi :: "rune \<Rightarrow> rune" where
  "accept_hi b0 = (if b0 = 0xED then 0x9F else if b0 = 0xF4 then 0x8F else 0xBF)"

definition RuneError :: rune where
  "RuneError = 0xFFFD"

definition maskx :: "char \<Rightarrow> rune" where
  "maskx c = of_char c AND 0x3F"

definition decoderune :: "char \<Rightarrow> string \<Rightarrow> rune \<times> nat" where
  "decoderune c0 cs =
     (let b0 = of_char c0 in
      if b0 < 0x80 then (b0, 1)
      else if 0xC2 \<le> b0 \<and> b0 \<le> 0xDF then
        (case cs of
           c1 # _ \<Rightarrow>
             if in_range (accept_lo b0) (accept_hi b0) c1
             then (push_bit 6 (b0 AND 0x1F) OR maskx c1, 2)
             else (RuneError, 1)
         | _ \<Rightarrow> (RuneError, 1))
      else if 0xE0 \<le> b0 \<and> b0 \<le> 0xEF then
        (case cs of
           c1 # c2 # _ \<Rightarrow>
             if in_range (accept_lo b0) (accept_hi b0) c1 \<and> in_range 0x80 0xBF c2
             then (push_bit 12 (b0 AND 0x0F) OR push_bit 6 (maskx c1) OR maskx c2, 3)
             else (RuneError, 1)
         | _ \<Rightarrow> (RuneError, 1))
      else if 0xF0 \<le> b0 \<and> b0 \<le> 0xF4 then
        (case cs of
           c1 # c2 # c3 # _ \<Rightarrow>
             if in_range (accept_lo b0) (accept_hi b0) c1 \<and> in_range 0x80 0xBF c2
                \<and> in_range 0x80 0xBF c3
             then (push_bit 18 (b0 AND 0x07) OR push_bit 12 (maskx c1)
                   OR push_bit 6 (maskx c2) OR maskx c3, 4)
             else (RuneError, 1)
         | _ \<Rightarrow> (RuneError, 1))
      else (RuneError, 1))"

fun runes :: "string \<Rightarrow> rune list" where
  "runes [] = []"
| "runes (c # cs) =
     fst (decoderune c cs) # runes (drop (snd (decoderune c cs) - 1) cs)"

text \<open>
  \<open>strings.Split(ip, ".")\<close>: the pieces between the separators, so a string with
  \<open>n\<close> dots has \<open>n + 1\<close> pieces and the empty string has the one piece \<open>""\<close>.
\<close>

fun Split :: "string \<Rightarrow> char \<Rightarrow> string list" where
  "Split [] sep = [[]]"
| "Split (c # cs) sep =
     (if c = sep then [] # Split cs sep
      else (c # hd (Split cs sep)) # tl (Split cs sep))"

text \<open>The inner loop: \<open>value = value*10 + uint32(c-'0')\<close>, wrapping modulo \<open>2^32\<close>.\<close>

definition segment_value :: "string \<Rightarrow> uint32" where
  "segment_value segment =
     foldl (\<lambda>value c. value * 10 + (c - 48)) 0 (runes segment)"

text \<open>
  The shift count \<open>BitsInByte * uint(3-i)\<close> is computed in \<open>uint\<close> and wraps for
  \<open>i > 3\<close>; a shift of a \<open>uint32\<close> by 32 or more gives 0.
\<close>

definition shift_count :: "nat \<Rightarrow> 64 word" where
  "shift_count i = word_of_nat BitsInByte * word_of_int (3 - int i)"

definition shl32 :: "uint32 \<Rightarrow> 64 word \<Rightarrow> uint32" where
  "shl32 x n = (if n < 32 then push_bit (unat n) x else 0)"

fun ipToInt_loop :: "nat \<Rightarrow> string list \<Rightarrow> uint32 \<Rightarrow> uint32" where
  "ipToInt_loop i [] result = result"
| "ipToInt_loop i (segment # segs) result =
     ipToInt_loop (i + 1) segs (result + shl32 (segment_value segment) (shift_count i))"

definition ipToInt :: "string \<Rightarrow> uint32" where
  "ipToInt ip = ipToInt_loop 0 (Split ip (CHR ''.'')) 0"

subsection \<open>processBatch and worker\<close>

datatype error = EOF | ReadFailure string | FailedToOpen error

text \<open>
  \<open>uniqueCount\<close> is a Go \<open>int\<close>; it is incremented at most once per line of the batch,
  so it never wraps and is modelled as a natural number.
\<close>

fun processBatch_loop ::
  "string list \<Rightarrow> SegmentedBitmap \<Rightarrow> nat \<Rightarrow> (nat \<times> SegmentedBitmap) option" where
  "processBatch_loop [] sb uniqueCount = Some (uniqueCount, sb)"
| "processBatch_loop (ip # rest) sb uniqueCount =
     (if ip = [] then processBatch_loop rest sb uniqueCount
      else (case MarkIP sb (ipToInt ip) of
              None \<Rightarrow> None
            | Some (fresh, sb') \<Rightarrow>
                processBatch_loop rest sb' (if fresh then uniqueCount + 1 else uniqueCount)))"

definition processBatch ::
  "string list \<Rightarrow> SegmentedBitmap \<Rightarrow> ((nat \<times> error option) \<times> SegmentedBitmap) option" where
  "processBatch batch sb =
     (case processBatch_loop batch sb 0 of
        None \<Rightarrow> None
      | Some (uniqueCount, sb') \<Rightarrow> Some ((uniqueCount, None), sb'))"

text \<open>
  \<open>worker\<close> over the batches it receives, in the order it receives them: the list of the
  counts it sends on the result channel, and the bitmap afterwards. A batch whose
  \<open>processBatch\<close> reports an error is logged and sends nothing.
\<close>

fun worker ::
  "string list list \<Rightarrow> SegmentedBitmap \<Rightarrow> (nat list \<times> SegmentedBitmap) option" where
  "worker [] sb = Some ([], sb)"
| "worker (batch # rest) sb =
     (case processBatch batch sb of
        None \<Rightarrow> None
      | Some ((uniqueCount, err), sb') \<Rightarrow>
          (case worker rest sb' of
             None \<Rightarrow> None
           | Some (results, sb'') \<Rightarrow>
               Some (if err \<noteq> None then results else uniqueCount # results, sb'')))"

subsection \<open>readBatch\<close>

text \<open>
  The buffered reader over the input file: the bytes the file still delivers, and the
  error the file reports after them (\<open>EOF\<close> at the normal end of the file).
  \<open>ReadString\<close> follows the library's contract for \<open>bufio.Reader.ReadString('\n')\<close>: the
  bytes up to and including the first newline with a nil error, or, when no newline is
  left, the bytes read before the error together with the error.
\<close>

record Reader =
  pending :: string
  final :: error

fun span_line :: "string \<Rightarrow> (string \<times> string) option" where
  "span_line [] = None"
| "span_line (c # cs) =
     (if c = CHR 0x0A then Some ([c], cs)
      else (case span_line cs of
              None \<Rightarrow> None
            | Some (line, rest) \<Rightarrow> Some (c # line, rest)))"

definition ReadString :: "Reader \<Rightarrow> string \<times> error option \<times> Reader" where
  "ReadString reader =
     (case span_line (pending reader) of
        Some (line, rest) \<Rightarrow> (line, None, reader\<lparr>pending := rest\<rparr>)
      | None \<Rightarrow> (pending reader, Some (final reader), reader\<lparr>pending := []\<rparr>))"

text \<open>
  \<open>strings.TrimSpace\<close> is a library function; \<open>readBatch\<close> takes it as the parameter
  \<open>TrimSpace\<close>, so every statement below holds for the library's function.
  \<open>asciiTrimSpace\<close> is that function on strings of ASCII bytes (it strips leading and
  trailing tab, newline, vertical tab, form feed, carriage return and space) and is what
  the concrete runs below use.
\<close>

definition asciiSpace :: "char \<Rightarrow> bool" where
  "asciiSpace c = (c \<in> {CHR 0x09, CHR 0x0A, CHR 0x0B, CHR 0x0C, CHR 0x0D, CHR 0x20})"

definition asciiTrimSpace :: "string \<Rightarrow> string" where
  "asciiTrimSpace s = rev (dropWhile asciiSpace (rev (dropWhile asciiSpace s)))"

function readBatch_loop ::
  "(string \<Rightarrow> string) \<Rightarrow> Reader \<Rightarrow> string list \<Rightarrow> (error + string list) \<times> Reader" where
  "readBatch_loop TrimSpace reader batch =
     (if length batch < BatchSize then
        (case ReadString reader of
           (line, Some err, reader') \<Rightarrow>
             if err = EOF \<and> length batch > 0 then (Inr batch, reader')
             else (Inl err, reader')
         | (line, None, reader') \<Rightarrow>
             readBatch_loop TrimSpace reader' (batch @ [TrimSpace line]))
      else (Inr batch, reader))"
  by pat_completeness auto
termination
  by (relation "measure (\<lambda>(TrimSpace, reader, batch). BatchSize - length batch)") auto

definition readBatch ::
  "(string \<Rightarrow> string) \<Rightarrow> Reader \<Rightarrow> (error + string list) \<times> Reader" where
  "readBatch TrimSpace reader = readBatch_loop TrimSpace reader []"

text \<open>
  Each line that \<open>ReadString\<close> hands out is at least its newline, so a batch that
  \<open>readBatch\<close> returns has used up input; this is what ends the producer's loop.
\<close>

lemma span_line_length:
  "span_line s = Some (line, rest) \<Longrightarrow> length s = length line + length rest \<and> line \<noteq> []"
  by (induction s arbitrary: line rest) (auto split: if_splits option.splits)

lemma ReadString_consumes:
  "ReadString reader = (line, None, reader') \<Longrightarrow>
     length (pending reader') < length (pending reader)"
  by (auto simp: ReadString_def dest: span_line_length split: option.splits)

lemma readBatch_loop_consumes:
  "readBatch_loop TrimSpace reader batch = (Inr batch', reader') \<Longrightarrow>
     length (pending reader') + length batch' \<le> length (pending reader) + length batch
     \<and> batch' \<noteq> []"
proof (induction TrimSpace reader batch rule: readBatch_loop.induct)
  case (1 TrimSpace reader batch)
  show ?case
  proof (cases "length batch < BatchSize")
    case False
    with "1.prems" show ?thesis by (auto simp: BatchSize_def)
  next
    case True
    obtain line err reader1 where rs: "ReadString reader = (line, err, reader1)"
      by (cases "ReadString reader") auto
    show ?thesis
    proof (cases err)
      case None
      with True rs "1.prems"
      have "readBatch_loop TrimSpace reader1 (batch @ [TrimSpace line]) = (Inr batch', reader')"
        by simp
      with "1.IH" [OF True rs [symmetric] refl None] ReadString_consumes [of reader line reader1]
        rs None
      show ?thesis by fastforce
    next
      case (Some e)
      with True rs "1.prems" show ?thesis
        by (auto simp: ReadString_def split: if_splits option.splits)
    qed
  qed
qed

lemma readBatch_consumes:
  "readBatch TrimSpace reader = (Inr batch, reader') \<Longrightarrow>
     length (pending reader') < length (pending reader)"
  using readBatch_loop_consumes [of TrimSpace reader "[]" batch reader']
  by (cases batch) (auto simp: readBatch_def)

subsection \<open>countUniqueIPs\<close>

text \<open>
  The producer goroutine: the batches it sends on the batch channel, in order, and the
  read error it logs, if any. It stops at the first error of \<open>readBatch\<close>.
\<close>

function produce :: "(string \<Rightarrow> string) \<Rightarrow> Reader \<Rightarrow> string list list \<times> error option" where
  "produce TrimSpace reader =
     (case readBatch TrimSpace reader of
        (Inl err, reader') \<Rightarrow> if err = EOF then ([], None) else ([], Some err)
      | (Inr batch, reader') \<Rightarrow>
          (case produce TrimSpace reader' of (batches, logged) \<Rightarrow> (batch # batches, logged)))"
  by pat_completeness auto
termination
  by (relation "measure (\<lambda>(TrimSpace, reader). length (pending reader))")
    (auto dest: readBatch_consumes [OF sym])

text \<open>
  The workers and the aggregating loop: the sum of the counts that arrive on the result
  channel when the batches are processed one after another in the given order.
\<close>

definition aggregate :: "string list list \<Rightarrow> SegmentedBitmap \<Rightarrow> nat option" where
  "aggregate batches sb =
     (case worker batches sb of
        None \<Rightarrow> None
      | Some (results, sb') \<Rightarrow> Some (sum_list results))"

text \<open>
  \<open>countUniqueIPs\<close> on the outcome of \<open>os.Open\<close>: an error, or the reader over the
  opened file. The result is the pair \<open>(int, error)\<close> that the function returns; the
  deferred \<open>Cleanup\<close> runs on the bitmap after the total is fixed and does not change it.
\<close>

definition countUniqueIPs ::
  "(string \<Rightarrow> string) \<Rightarrow> error + Reader \<Rightarrow> (nat \<times> error option) option" where
  "countUniqueIPs TrimSpace opened =
     (case opened of
        Inl err \<Rightarrow> Some (0, Some (FailedToOpen err))
      | Inr reader \<Rightarrow>
          (case aggregate (fst (produce TrimSpace reader)) NewSegmentedBitmap of
             None \<Rightarrow> None
           | Some totalUnique \<Rightarrow> Some (totalUnique, None)))"

subsection \<open>Notions used to state the properties\<close>

text \<open>A bitmap as \<open>NewSegmentedBitmap\<close> shapes it: 256 segments of \<open>BytesPerSegment\<close> bytes.\<close>

definition allocated :: "SegmentedBitmap \<Rightarrow> bool" where
  "allocated sb =
     (length (segments sb) = BitmapSegments \<and>
      (\<forall>s \<in> set (segments sb). length s = BytesPerSegment))"

text \<open>The ordinals whose bit is set.\<close>

definition marked :: "SegmentedBitmap \<Rightarrow> uint32 set" where
  "marked sb =
     {ip. bit (segments sb ! unat (segmentIndex ip) ! unat (byteIndex ip)) (unat (bitOffset ip))}"

text \<open>The bitmap with the bit of one ordinal set.\<close>

definition set_bit_at :: "SegmentedBitmap \<Rightarrow> uint32 \<Rightarrow> SegmentedBitmap" where
  "set_bit_at sb ip =
     sb\<lparr>segments := (segments sb)[unat (segmentIndex ip) :=
        (segments sb ! unat (segmentIndex ip))[unat (byteIndex ip) :=
           (segments sb ! unat (segmentIndex ip) ! unat (byteIndex ip))
             OR push_bit (unat (bitOffset ip)) 1]]\<rparr>"

text \<open>A sequence of \<open>MarkIP\<close> calls on one bitmap: the flags returned, in call order.\<close>

fun MarkIP_calls ::
  "SegmentedBitmap \<Rightarrow> uint32 list \<Rightarrow> (bool list \<times> SegmentedBitmap) option" where
  "MarkIP_calls sb [] = Some ([], sb)"
| "MarkIP_calls sb (ip # ips) =
     (case MarkIP sb ip of
        None \<Rightarrow> None
      | Some (fresh, sb') \<Rightarrow>
          (case MarkIP_calls sb' ips of
             None \<Rightarrow> None
           | Some (flags, sb'') \<Rightarrow> Some (fresh # flags, sb'')))"

text \<open>The ordinals of the non-empty lines of a list of lines.\<close>

definition ordinals :: "string list \<Rightarrow> uint32 set" where
  "ordinals lines = set (map ipToInt (filter (\<lambda>ip. ip \<noteq> []) lines))"

text \<open>
  A well-formed octet is a non-empty string of decimal digits whose value, read in
  positional notation, is at most 255.
\<close>

definition digit :: "char \<Rightarrow> bool" where
  "digit c = (48 \<le> (of_char c :: nat) \<and> (of_char c :: nat) \<le> 57)"

fun dec_value :: "string \<Rightarrow> nat" where
  "dec_value [] = 0"
| "dec_value (c # cs) = (of_char c - 48) * 10 ^ length cs + dec_value cs"

definition octet :: "string \<Rightarrow> bool" where
  "octet s = (s \<noteq> [] \<and> list_all digit s \<and> dec_value s \<le> 255)"

text \<open>
  The lines of the input that end in a newline, each with its newline: what
  \<open>ReadString\<close> returns with a nil error.
\<close>

function complete_lines :: "string \<Rightarrow> string list" where
  "complete_lines s =
     (case span_line s of
        None \<Rightarrow> []
      | Some (line, rest) \<Rightarrow> line # complete_lines rest)"
  by pat_completeness auto
termination
  by (relation "measure length") (auto dest: span_line_length)

text \<open>The input after its first \<open>n\<close> newline-terminated lines.\<close>

fun drop_lines :: "nat \<Rightarrow> string \<Rightarrow> string" where
  "drop_lines 0 s = s"
| "drop_lines (Suc n) s =
     (case span_line s of
        None \<Rightarrow> []
      | Some (line, rest) \<Rightarrow> drop_lines n rest)"

text \<open>
  The lines that reach a batch: at the normal end of the file all newline-terminated
  lines, after a read error those that fill whole batches.
\<close>

definition batched_lines :: "Reader \<Rightarrow> string list" where
  "batched_lines reader =
     (if final reader = EOF then complete_lines (pending reader)
      else take (length (complete_lines (pending reader)) div BatchSize * BatchSize)
             (complete_lines (pending reader)))"

section \<open>Lemmas\<close>

subsection \<open>The index computation of MarkIP\<close>

lemma unat_segmentIndex: "unat (segmentIndex ip) = unat ip div 16777216"
  by (simp add: segmentIndex_def MaxIP_def BitmapSegments_def unat_div)

lemma unat_localIP: "unat (localIP ip) = unat ip mod 16777216"
  by (simp add: localIP_def MaxIP_def BitmapSegments_def unat_mod)

lemma unat_byteIndex: "unat (byteIndex ip) = unat ip mod 16777216 div 8"
  by (simp add: byteIndex_def BitsInByte_def unat_div unat_localIP)

lemma unat_bitOffset: "unat (bitOffset ip) = unat ip mod 8"
proof -
  have "unat (bitOffset ip) = unat ip mod 16777216 mod 8"
    by (simp add: bitOffset_def BitsInByte_def unat_mod unat_localIP)
  also have "\<dots> = unat ip mod 8"
    by (rule mod_mod_cancel) simp
  finally show ?thesis .
qed

lemma unat_ip_bound: "unat (ip :: uint32) < 4294967296"
  using unsigned_less [of ip, where ?'a = nat] by simp

lemma segmentIndex_bound: "unat (segmentIndex ip) < BitmapSegments"
  using unat_ip_bound [of ip] by (simp add: unat_segmentIndex BitmapSegments_def)

lemma byteIndex_bound: "unat (byteIndex ip) < BytesPerSegment"
  by (simp add: unat_byteIndex BytesPerSegment_def MaxIP_def BitmapSegments_def BitsInByte_def)

lemma bitOffset_bound: "unat (bitOffset ip) < BitsInByte"
  by (simp add: unat_bitOffset BitsInByte_def)

lemma ordinal_decompose:
  "unat ip = unat (segmentIndex ip) * 16777216 + unat (byteIndex ip) * 8 + unat (bitOffset ip)"
proof -
  have "unat ip mod 16777216 = unat ip mod 16777216 div 8 * 8 + unat ip mod 16777216 mod 8"
    by simp
  moreover have "unat ip mod 16777216 mod 8 = unat ip mod 8"
    by (rule mod_mod_cancel) simp
  moreover have "unat ip = unat ip div 16777216 * 16777216 + unat ip mod 16777216"
    by simp
  ultimately show ?thesis
    unfolding unat_segmentIndex unat_byteIndex unat_bitOffset by linarith
qed

lemma locate_inj:
  assumes "segmentIndex ip = segmentIndex ip'" "byteIndex ip = byteIndex ip'"
    "bitOffset ip = bitOffset ip'"
  shows "ip = ip'"
proof -
  have "unat ip = unat ip'"
    using assms ordinal_decompose [of ip] ordinal_decompose [of ip'] by simp
  then show ?thesis by (simp add: word_unat_eq_iff)
qed

lemma locate_surj:
  assumes "s < 256" "b < 2097152" "k < 8"
  shows "\<exists>ip. unat (segmentIndex ip) = s \<and> unat (byteIndex ip) = b \<and> unat (bitOffset ip) = k"
proof -
  let ?n = "s * 16777216 + b * 8 + k"
  have n: "?n < 4294967296" using assms by arith
  have u: "unat (word_of_nat ?n :: uint32) = ?n"
    using n by (intro of_nat_inverse) simp_all
  have "?n div 16777216 = s" using assms by simp
  moreover have "?n mod 16777216 = b * 8 + k"
  proof -
    have "b * 8 + k < 16777216" using assms by arith
    then have "(s * 16777216 + (b * 8 + k)) mod 16777216 = b * 8 + k" by simp
    then show ?thesis by (simp only: add.assoc)
  qed
  moreover have "(b * 8 + k) div 8 = b" using assms by simp
  moreover have "?n mod 8 = k"
  proof -
    have "?n = (s * 2097152 + b) * 8 + k" by simp
    then have "?n mod 8 = k mod 8" by (simp only: mod_mult_self3)
    then show ?thesis using assms by simp
  qed
  ultimately show ?thesis
    by (intro exI [of _ "word_of_nat ?n"])
      (simp only: unat_segmentIndex unat_byteIndex unat_bitOffset u)
qed

lemma segment_range:
  "unat (segmentIndex ip) = s \<longleftrightarrow> s * 16777216 \<le> unat ip \<and> unat ip < (s + 1) * 16777216"
proof -
  have "unat ip div 16777216 = s \<longleftrightarrow> s * 16777216 \<le> unat ip \<and> unat ip < (s + 1) * 16777216"
    by (auto simp: div_nat_eqI less_mult_imp_div_less le_div_geq; arith?)
  then show ?thesis by (simp add: unat_segmentIndex)
qed

subsection \<open>MarkIP on an allocated bitmap\<close>

lemma mask_test: "(b AND 2 ^ k \<noteq> 0) = bit b k" for b :: byte
  using and_exp_eq_0_iff_not_bit [of b k] by simp

lemma mask_set: "k < 8 \<Longrightarrow> bit (b OR 2 ^ k) j = (bit b j \<or> j = k)" for b :: byte
  by (auto simp: bit_or_iff bit_exp_iff)

lemma allocated_nth:
  "allocated sb \<Longrightarrow> s < BitmapSegments \<Longrightarrow> length (segments sb ! s) = BytesPerSegment"
  by (simp add: allocated_def)

lemma MarkIP_in_range:
  assumes "allocated sb"
  shows "unat (segmentIndex ip) < length (segments sb)"
    and "unat (byteIndex ip) < length (segments sb ! unat (segmentIndex ip))"
  using assms segmentIndex_bound [of ip] byteIndex_bound [of ip]
  by (simp_all add: allocated_def)

lemma MarkIP_seen:
  "allocated sb \<Longrightarrow> ip \<in> marked sb \<Longrightarrow> MarkIP sb ip = Some (False, sb)"
  using MarkIP_in_range [of sb ip]
  by (simp add: MarkIP_def Let_def marked_def mask_test)

lemma MarkIP_new:
  "allocated sb \<Longrightarrow> ip \<notin> marked sb \<Longrightarrow> MarkIP sb ip = Some (True, set_bit_at sb ip)"
  using MarkIP_in_range [of sb ip]
  by (simp add: MarkIP_def Let_def marked_def mask_test set_bit_at_def)

lemma allocated_set_bit_at:
  assumes "allocated sb"
  shows "allocated (set_bit_at sb ip)"
proof -
  let ?si = "unat (segmentIndex ip)"
  let ?x = "(segments sb ! ?si)[unat (byteIndex ip) :=
     (segments sb ! ?si ! unat (byteIndex ip)) OR push_bit (unat (bitOffset ip)) 1]"
  have seg: "segments (set_bit_at sb ip) = (segments sb)[?si := ?x]"
    by (simp add: set_bit_at_def)
  have "length ?x = BytesPerSegment"
    using assms segmentIndex_bound [of ip] by (simp add: allocated_def)
  moreover have "set ((segments sb)[?si := ?x]) \<subseteq> insert ?x (set (segments sb))"
    by (rule set_update_subset_insert)
  ultimately have "\<forall>s \<in> set ((segments sb)[?si := ?x]). length s = BytesPerSegment"
    using assms unfolding allocated_def by blast
  then show ?thesis
    using assms unfolding allocated_def seg by simp
qed

lemma marked_set_bit_at:
  assumes "allocated sb"
  shows "marked (set_bit_at sb ip) = insert ip (marked sb)"
proof -
  note r = MarkIP_in_range [OF assms, of ip]
  have k: "unat (bitOffset ip) < 8"
    using bitOffset_bound [of ip] by (simp add: BitsInByte_def)
  have "ip' \<in> marked (set_bit_at sb ip) \<longleftrightarrow> ip' = ip \<or> ip' \<in> marked sb" for ip'
  proof (cases "unat (segmentIndex ip') = unat (segmentIndex ip)")
    case False
    then have "ip' \<noteq> ip" by auto
    with False show ?thesis
      by (simp add: marked_def set_bit_at_def)
  next
    case seg: True
    show ?thesis
    proof (cases "unat (byteIndex ip') = unat (byteIndex ip)")
      case False
      then have "ip' \<noteq> ip" by auto
      with False seg r show ?thesis
        by (simp add: marked_def set_bit_at_def)
    next
      case byt: True
      have "unat (bitOffset ip') = unat (bitOffset ip) \<longleftrightarrow> ip' = ip"
        using seg byt locate_inj [of ip' ip] by (auto simp: word_unat_eq_iff [symmetric])
      with seg byt r k show ?thesis
        by (auto simp: marked_def set_bit_at_def mask_set)
    qed
  qed
  then show ?thesis by blast
qed

lemma marked_New: "marked NewSegmentedBitmap = {}"
  using segmentIndex_bound byteIndex_bound
  by (simp add: marked_def NewSegmentedBitmap_def)

lemma allocated_New: "allocated NewSegmentedBitmap"
  by (simp add: allocated_def NewSegmentedBitmap_def)

lemma MarkIP_allocated:
  assumes "allocated sb"
  shows "\<exists>sb'. MarkIP sb ip = Some (ip \<notin> marked sb, sb') \<and> allocated sb'
           \<and> marked sb' = insert ip (marked sb)"
proof (cases "ip \<in> marked sb")
  case True
  then show ?thesis using assms by (auto simp: MarkIP_seen)
next
  case False
  then show ?thesis
    using assms by (simp add: MarkIP_new allocated_set_bit_at marked_set_bit_at)
qed

subsection \<open>Batches and call sequences\<close>

lemma finite_ordinals: "finite (ordinals lines)"
  by (simp add: ordinals_def)

lemma ordinals_Nil: "ordinals [] = {}"
  by (simp add: ordinals_def)

lemma ordinals_Cons:
  "ordinals (ip # rest) = (if ip = [] then ordinals rest else insert (ipToInt ip) (ordinals rest))"
  by (simp add: ordinals_def)

lemma ordinals_append: "ordinals (xs @ ys) = ordinals xs \<union> ordinals ys"
  by (simp add: ordinals_def)

lemma ordinals_mset: "mset xs = mset ys \<Longrightarrow> ordinals xs = ordinals ys"
proof -
  assume "mset xs = mset ys"
  then have "set xs = set ys" by (rule mset_eq_setD)
  then show ?thesis by (auto simp: ordinals_def)
qed

lemma card_new_insert:
  assumes "finite R"
  shows "card (insert x R - M) = (if x \<in> M then 0 else 1) + card (R - insert x M)"
proof (cases "x \<in> M")
  case True
  then have "insert x R - M = R - insert x M" by blast
  then have "card (insert x R - M) = card (R - insert x M)" by (rule arg_cong)
  with True show ?thesis by (simp only: if_True add_0)
next
  case False
  then have eq: "insert x R - M = insert x (R - insert x M)" by blast
  have "finite (R - insert x M)" using assms by (rule finite_Diff)
  moreover have "x \<notin> R - insert x M" by blast
  ultimately have "card (insert x (R - insert x M)) = Suc (card (R - insert x M))"
    by (rule card_insert_disjoint)
  with False show ?thesis unfolding eq by (simp only: if_False plus_1_eq_Suc)
qed

lemma card_new_union:
  assumes "finite A" "finite B"
  shows "card ((A \<union> B) - M) = card (A - M) + card (B - (M \<union> A))"
proof -
  have eq: "(A \<union> B) - M = (A - M) \<union> (B - (M \<union> A))" by blast
  have "finite (A - M)" using assms(1) by (rule finite_Diff)
  moreover have "finite (B - (M \<union> A))" using assms(2) by (rule finite_Diff)
  moreover have "(A - M) \<inter> (B - (M \<union> A)) = {}" by blast
  ultimately have "card ((A - M) \<union> (B - (M \<union> A))) = card (A - M) + card (B - (M \<union> A))"
    by (rule card_Un_disjoint)
  then show ?thesis unfolding eq .
qed

lemma processBatch_loop_allocated:
  "allocated sb \<Longrightarrow>
     \<exists>sb'. processBatch_loop batch sb n = Some (n + card (ordinals batch - marked sb), sb')
       \<and> allocated sb' \<and> marked sb' = marked sb \<union> ordinals batch"
proof (induction batch arbitrary: sb n)
  case Nil
  then show ?case by (simp add: ordinals_Nil)
next
  case (Cons ip rest)
  show ?case
  proof (cases "ip = []")
    case True
    with Cons.IH [OF Cons.prems, of n] show ?thesis
      by (simp add: ordinals_Cons)
  next
    case False
    from MarkIP_allocated [OF Cons.prems, of "ipToInt ip"]
    obtain sb1 where m: "MarkIP sb (ipToInt ip) = Some (ipToInt ip \<notin> marked sb, sb1)"
      and a1: "allocated sb1" and m1: "marked sb1 = insert (ipToInt ip) (marked sb)"
      by blast
    let ?n1 = "if ipToInt ip \<notin> marked sb then n + 1 else n"
    from Cons.IH [OF a1, of ?n1]
    obtain sb' where l: "processBatch_loop rest sb1 ?n1 =
        Some (?n1 + card (ordinals rest - marked sb1), sb')"
      and a': "allocated sb'" and m': "marked sb' = marked sb1 \<union> ordinals rest"
      by blast
    have "processBatch_loop (ip # rest) sb n = processBatch_loop rest sb1 ?n1"
      using False m by simp
    moreover have "n + card (ordinals (ip # rest) - marked sb)
        = ?n1 + card (ordinals rest - marked sb1)"
      using False card_new_insert [OF finite_ordinals, of "ipToInt ip" rest "marked sb"]
      by (simp add: ordinals_Cons m1)
    moreover have "marked sb' = marked sb \<union> ordinals (ip # rest)"
      using False m' m1 by (auto simp: ordinals_Cons)
    ultimately show ?thesis using l a' by simp
  qed
qed

lemma processBatch_allocated:
  assumes "allocated sb"
  shows "\<exists>sb'. processBatch batch sb = Some ((card (ordinals batch - marked sb), None), sb')
       \<and> allocated sb' \<and> marked sb' = marked sb \<union> ordinals batch"
  using processBatch_loop_allocated [OF assms, of batch 0]
  by (auto simp: processBatch_def)

lemma worker_allocated:
  "allocated sb \<Longrightarrow>
     \<exists>results sb'. worker batches sb = Some (results, sb')
       \<and> sum_list results = card (ordinals (concat batches) - marked sb)
       \<and> length results = length batches
       \<and> allocated sb' \<and> marked sb' = marked sb \<union> ordinals (concat batches)"
proof (induction batches arbitrary: sb)
  case Nil
  then show ?case by (simp add: ordinals_Nil)
next
  case (Cons batch rest)
  from processBatch_allocated [OF Cons.prems, of batch]
  obtain sb1 where p: "processBatch batch sb = Some ((card (ordinals batch - marked sb), None), sb1)"
    and a1: "allocated sb1" and m1: "marked sb1 = marked sb \<union> ordinals batch"
    by blast
  from Cons.IH [OF a1]
  obtain results sb' where w: "worker rest sb1 = Some (results, sb')"
    and s: "sum_list results = card (ordinals (concat rest) - marked sb1)"
    and len: "length results = length rest"
    and a': "allocated sb'" and m': "marked sb' = marked sb1 \<union> ordinals (concat rest)"
    by blast
  have "worker (batch # rest) sb = Some (card (ordinals batch - marked sb) # results, sb')"
    using p w by simp
  moreover have "card (ordinals batch - marked sb) + sum_list results
      = card (ordinals (concat (batch # rest)) - marked sb)"
    using card_new_union [OF finite_ordinals finite_ordinals, of batch "concat rest" "marked sb"]
    by (simp add: s m1 ordinals_append)
  moreover have "marked sb' = marked sb \<union> ordinals (concat (batch # rest))"
    using m' m1 by (auto simp: ordinals_append)
  ultimately show ?case using a' len by simp
qed

lemma aggregate_New:
  "aggregate batches NewSegmentedBitmap = Some (card (ordinals (concat batches)))"
  using worker_allocated [OF allocated_New, of batches]
  by (auto simp: aggregate_def marked_New)

lemma MarkIP_calls_allocated:
  "allocated sb \<Longrightarrow>
     \<exists>flags sb'. MarkIP_calls sb ips = Some (flags, sb') \<and> length flags = length ips
       \<and> (\<forall>k < length ips. flags ! k = (ips ! k \<notin> marked sb \<union> set (take k ips)))
       \<and> allocated sb' \<and> marked sb' = marked sb \<union> set ips"
proof (induction ips arbitrary: sb)
  case Nil
  then show ?case by simp
next
  case (Cons ip ips)
  from MarkIP_allocated [OF Cons.prems, of ip]
  obtain sb1 where m: "MarkIP sb ip = Some (ip \<notin> marked sb, sb1)"
    and a1: "allocated sb1" and m1: "marked sb1 = insert ip (marked sb)"
    by blast
  from Cons.IH [OF a1]
  obtain flags sb' where c: "MarkIP_calls sb1 ips = Some (flags, sb')"
    and len: "length flags = length ips"
    and fl: "\<forall>k < length ips. flags ! k = (ips ! k \<notin> marked sb1 \<union> set (take k ips))"
    and a': "allocated sb'" and m': "marked sb' = marked sb1 \<union> set ips"
    by blast
  have "MarkIP_calls sb (ip # ips) = Some ((ip \<notin> marked sb) # flags, sb')"
    using m c by simp
  moreover have "((ip \<notin> marked sb) # flags) ! k
      = ((ip # ips) ! k \<notin> marked sb \<union> set (take k (ip # ips)))"
    if "k < length (ip # ips)" for k
  proof (cases k)
    case 0
    then show ?thesis by simp
  next
    case (Suc j)
    with that fl have "flags ! j = (ips ! j \<notin> marked sb1 \<union> set (take j ips))" by simp
    with Suc show ?thesis by (simp add: m1)
  qed
  moreover have "marked sb' = marked sb \<union> set (ip # ips)"
    using m' m1 by auto
  ultimately show ?case using a' len by auto
qed

lemma sum_length_same:
  "\<forall>s \<in> set xs. length s = n \<Longrightarrow> sum_list (map length xs) = length xs * n"
  by (induction xs) auto

lemma sum_length_allocated:
  "allocated sb \<Longrightarrow> sum_list (map length (segments sb)) = BitmapSegments * BytesPerSegment"
  using sum_length_same [of "segments sb" BytesPerSegment] by (simp add: allocated_def)

lemma MarkIP_Some:
  assumes "MarkIP sb ip = Some (fresh, sb')"
  shows "unat (segmentIndex ip) < length (segments sb)"
    and "unat (byteIndex ip) < length (segments sb ! unat (segmentIndex ip))"
    and "sb' = sb \<or> sb' = set_bit_at sb ip"
  using assms by (simp_all add: MarkIP_def Let_def set_bit_at_def split: if_splits)

lemma set_bit_at_length: "length (segments (set_bit_at sb ip)) = length (segments sb)"
  by (simp add: set_bit_at_def)

lemma set_bit_at_length_nth:
  "s < length (segments sb) \<Longrightarrow>
     length (segments (set_bit_at sb ip) ! s) = length (segments sb ! s)"
  by (cases "s = unat (segmentIndex ip)") (simp_all add: set_bit_at_def)

lemma set_bit_at_other_byte:
  "(s, b) \<noteq> (unat (segmentIndex ip), unat (byteIndex ip)) \<Longrightarrow>
     s < length (segments sb) \<Longrightarrow>
     segments (set_bit_at sb ip) ! s ! b = segments sb ! s ! b"
  by (cases "s = unat (segmentIndex ip)") (auto simp: set_bit_at_def)

lemma set_bit_at_other_bit:
  "k \<noteq> unat (bitOffset ip) \<Longrightarrow>
     unat (segmentIndex ip) < length (segments sb) \<Longrightarrow>
     unat (byteIndex ip) < length (segments sb ! unat (segmentIndex ip)) \<Longrightarrow>
     bit (segments (set_bit_at sb ip) ! unat (segmentIndex ip) ! unat (byteIndex ip)) k
     = bit (segments sb ! unat (segmentIndex ip) ! unat (byteIndex ip)) k"
  by (simp add: set_bit_at_def bit_or_iff bit_exp_iff)

lemma processBatch_loop_empty:
  "list_all (\<lambda>ip. ip = []) batch \<Longrightarrow> processBatch_loop batch sb n = Some (n, sb)"
  by (induction batch) auto

subsection \<open>Concrete ordinals\<close>

lemma ipToInt_10_0_0_1: "ipToInt ''10.0.0.1'' = 167772161"
  by (simp add: ipToInt_def segment_value_def shift_count_def shl32_def decoderune_def
      BitsInByte_def)

lemma ipToInt_10_0_0_2: "ipToInt ''10.0.0.2'' = 167772162"
  by (simp add: ipToInt_def segment_value_def shift_count_def shl32_def decoderune_def
      BitsInByte_def)

subsection \<open>ipToInt on strings of digits\<close>

lemma of_char_word: "(of_char c :: uint32) = word_of_nat (of_char c)"
  by (cases c) (simp add: of_char_def)

lemma decoderune_ascii:
  assumes "(of_char c :: nat) < 128"
  shows "decoderune c cs = (word_of_nat (of_char c), 1)"
proof -
  have "(of_char c :: nat) < 2 ^ LENGTH(32)"
    using assms by simp
  then have "unat (word_of_nat (of_char c) :: uint32) = of_char c"
    by (intro of_nat_inverse) simp_all
  then have "(of_char c :: uint32) < 0x80"
    using assms by (simp add: word_less_nat_alt of_char_word)
  then show ?thesis
    by (simp add: decoderune_def Let_def of_char_word)
qed

lemma runes_ascii:
  "list_all (\<lambda>c. (of_char c :: nat) < 128) s \<Longrightarrow>
     runes s = map (\<lambda>c. word_of_nat (of_char c)) s"
  by (induction s) (simp_all add: decoderune_ascii)

lemma digit_ascii: "digit c \<Longrightarrow> (of_char c :: nat) < 128"
  by (simp add: digit_def)

lemma digit_not_dot: "digit c \<Longrightarrow> c \<noteq> CHR ''.''"
  by (auto simp: digit_def)

lemma digits_foldl:
  "list_all digit s \<Longrightarrow>
     foldl (\<lambda>value c. value * 10 + (c - 48)) (word_of_nat a :: uint32)
       (map (\<lambda>c. word_of_nat (of_char c)) s)
     = word_of_nat (a * 10 ^ length s + dec_value s)"
proof (induction s arbitrary: a)
  case Nil
  then show ?case by simp
next
  case (Cons c cs)
  from Cons.prems have dc: "digit c" and r: "list_all digit cs"
    by simp_all
  from dc have d: "48 \<le> (of_char c :: nat)"
    by (simp add: digit_def)
  have "(word_of_nat a :: uint32) * 10 + (word_of_nat (of_char c) - 48)
      = word_of_nat (a * 10 + (of_char c - 48))"
    using d by (simp add: of_nat_diff)
  then show ?case
    using Cons.IH [OF r, of "a * 10 + (of_char c - 48)"]
    by (simp add: algebra_simps)
qed

lemma segment_value_digits:
  assumes "list_all digit s"
  shows "segment_value s = word_of_nat (dec_value s)"
proof -
  have "list_all (\<lambda>c. (of_char c :: nat) < 128) s"
    using assms by (induction s) (simp_all add: digit_ascii)
  then have "runes s = map (\<lambda>c. word_of_nat (of_char c)) s"
    by (rule runes_ascii)
  then show ?thesis
    using digits_foldl [OF assms, of 0] by (simp add: segment_value_def)
qed

lemma Split_no_sep: "sep \<notin> set s \<Longrightarrow> Split s sep = [s]"
  by (induction s) auto

lemma Split_append_sep: "sep \<notin> set s \<Longrightarrow> Split (s @ sep # rest) sep = s # Split rest sep"
  by (induction s) auto

lemma digits_no_dot: "list_all digit s \<Longrightarrow> CHR ''.'' \<notin> set s"
  by (induction s) (auto dest: digit_not_dot)

lemma Split_quad:
  assumes "list_all digit s0" "list_all digit s1" "list_all digit s2" "list_all digit s3"
  shows "Split (s0 @ CHR ''.'' # s1 @ CHR ''.'' # s2 @ CHR ''.'' # s3) (CHR ''.'')
    = [s0, s1, s2, s3]"
  using assms [THEN digits_no_dot]
  by (simp add: Split_append_sep Split_no_sep)

lemma shift_counts:
  "shift_count 0 = 24" "shift_count (Suc 0) = 16" "shift_count (Suc (Suc 0)) = 8"
  "shift_count (Suc (Suc (Suc 0))) = 0"
  by (simp_all add: shift_count_def BitsInByte_def)

lemma ipToInt_quad:
  assumes "list_all digit s0" "list_all digit s1" "list_all digit s2" "list_all digit s3"
  shows "ipToInt (s0 @ ''.'' @ s1 @ ''.'' @ s2 @ ''.'' @ s3)
    = word_of_nat (dec_value s0 * 16777216 + dec_value s1 * 65536 + dec_value s2 * 256
        + dec_value s3)"
  using assms
  by (simp add: ipToInt_def Split_quad segment_value_digits shift_counts shl32_def
      push_bit_eq_mult)

lemma unat_quad:
  assumes "a \<le> 255" "b \<le> 255" "c \<le> 255" "d \<le> 255"
  shows "unat (word_of_nat (a * 16777216 + b * 65536 + c * 256 + d) :: uint32)
    = a * 16777216 + b * 65536 + c * 256 + d"
proof -
  have "a * 16777216 + b * 65536 + c * 256 + d < 2 ^ 32"
    using assms by simp
  then show ?thesis
    by (intro of_nat_inverse) simp_all
qed

subsection \<open>readBatch, the producer and countUniqueIPs\<close>

declare complete_lines.simps [simp del] readBatch_loop.simps [simp del] produce.simps [simp del]

lemma complete_lines_None: "span_line s = None \<Longrightarrow> complete_lines s = []"
  by (subst complete_lines.simps) simp

lemma complete_lines_Some:
  "span_line s = Some (line, rest) \<Longrightarrow> complete_lines s = line # complete_lines rest"
  by (subst complete_lines.simps) simp

lemma complete_lines_Nil: "complete_lines [] = []"
  by (rule complete_lines_None) simp

lemma complete_lines_drop_lines:
  "complete_lines (drop_lines n s) = drop n (complete_lines s)"
proof (induction n arbitrary: s)
  case 0
  then show ?case by simp
next
  case (Suc n)
  show ?case
  proof (cases "span_line s")
    case None
    then show ?thesis by (simp add: complete_lines_None complete_lines_Nil)
  next
    case (Some p)
    then obtain line rest where "span_line s = Some (line, rest)" by (cases p) simp
    then show ?thesis by (simp add: complete_lines_Some Suc.IH)
  qed
qed

lemma readBatch_loop_spec:
  "length batch \<le> BatchSize \<Longrightarrow>
   readBatch_loop TrimSpace reader batch =
     (if BatchSize - length batch \<le> length (complete_lines (pending reader)) then
        (Inr (batch @ map TrimSpace
                (take (BatchSize - length batch) (complete_lines (pending reader)))),
         reader\<lparr>pending := drop_lines (BatchSize - length batch) (pending reader)\<rparr>)
      else if final reader = EOF \<and> 0 < length batch + length (complete_lines (pending reader))
      then (Inr (batch @ map TrimSpace (complete_lines (pending reader))),
            reader\<lparr>pending := []\<rparr>)
      else (Inl (final reader), reader\<lparr>pending := []\<rparr>))"
proof (induction TrimSpace reader batch rule: readBatch_loop.induct)
  case (1 TrimSpace reader batch)
  show ?case
  proof (cases "length batch < BatchSize")
    case False
    with "1.prems" have "length batch = BatchSize" by simp
    then show ?thesis by (subst readBatch_loop.simps) simp
  next
    case True
    show ?thesis
    proof (cases "span_line (pending reader)")
      case None
      then have rs: "ReadString reader = (pending reader, Some (final reader), reader\<lparr>pending := []\<rparr>)"
        by (simp add: ReadString_def)
      from None have ls: "complete_lines (pending reader) = []"
        by (rule complete_lines_None)
      show ?thesis
        using True by (subst readBatch_loop.simps) (simp add: rs ls)
    next
      case (Some p)
      then obtain line rest where sp: "span_line (pending reader) = Some (line, rest)"
        by (cases p) simp
      then have rs: "ReadString reader = (line, None, reader\<lparr>pending := rest\<rparr>)"
        by (simp add: ReadString_def)
      from sp have ls: "complete_lines (pending reader) = line # complete_lines rest"
        by (rule complete_lines_Some)
      from True have len: "length (batch @ [TrimSpace line]) \<le> BatchSize" by simp
      obtain need where need: "BatchSize - length batch = Suc need"
        using True by (cases "BatchSize - length batch") simp_all
      then have need': "BatchSize - length (batch @ [TrimSpace line]) = need" by simp
      note ih = "1.IH" [OF True rs [symmetric] refl refl len, unfolded need']
      have "readBatch_loop TrimSpace reader batch
          = readBatch_loop TrimSpace (reader\<lparr>pending := rest\<rparr>) (batch @ [TrimSpace line])"
        using True by (subst readBatch_loop.simps) (simp add: rs)
      also note ih
      finally show ?thesis
        unfolding need ls by (simp add: sp)
    qed
  qed
qed

lemma readBatch_spec:
  "readBatch TrimSpace reader =
     (if BatchSize \<le> length (complete_lines (pending reader)) then
        (Inr (map TrimSpace (take BatchSize (complete_lines (pending reader)))),
         reader\<lparr>pending := drop_lines BatchSize (pending reader)\<rparr>)
      else if final reader = EOF \<and> 0 < length (complete_lines (pending reader))
      then (Inr (map TrimSpace (complete_lines (pending reader))), reader\<lparr>pending := []\<rparr>)
      else (Inl (final reader), reader\<lparr>pending := []\<rparr>))"
  using readBatch_loop_spec [of "[]" TrimSpace reader]
  by (simp add: readBatch_def)

lemma produce_spec:
  "concat (fst (produce TrimSpace reader)) = map TrimSpace (batched_lines reader)
   \<and> snd (produce TrimSpace reader) = (if final reader = EOF then None else Some (final reader))"
proof (induction "length (complete_lines (pending reader))" arbitrary: reader rule: less_induct)
  case less
  let ?ls = "complete_lines (pending reader)"
  have B: "0 < BatchSize" by (simp add: BatchSize_def)
  show ?case
  proof (cases "BatchSize \<le> length ?ls")
    case True
    let ?r' = "reader\<lparr>pending := drop_lines BatchSize (pending reader)\<rparr>"
    have rb: "readBatch TrimSpace reader = (Inr (map TrimSpace (take BatchSize ?ls)), ?r')"
      using True by (simp add: readBatch_spec)
    have ls': "complete_lines (pending ?r') = drop BatchSize ?ls"
      by (simp add: complete_lines_drop_lines)
    have "length (complete_lines (pending ?r')) < length ?ls"
      using True B by (simp add: complete_lines_drop_lines)
    note ih = less [OF this]
    have p: "produce TrimSpace reader =
        (map TrimSpace (take BatchSize ?ls) # fst (produce TrimSpace ?r'),
         snd (produce TrimSpace ?r'))"
      by (subst produce.simps) (simp add: rb split: prod.split)
    have d: "length ?ls div BatchSize * BatchSize
        = BatchSize + (length ?ls - BatchSize) div BatchSize * BatchSize"
      using True B by (simp add: le_div_geq)
    have "map TrimSpace (take BatchSize ?ls) @ map TrimSpace (batched_lines ?r')
        = map TrimSpace (batched_lines reader)"
    proof (cases "final reader = EOF")
      case True
      then show ?thesis
        by (simp add: batched_lines_def complete_lines_drop_lines flip: map_append)
    next
      case False
      then show ?thesis
        by (simp add: batched_lines_def complete_lines_drop_lines d take_add flip: map_append)
    qed
    with ih p show ?thesis by simp
  next
    case short: False
    show ?thesis
    proof (cases "final reader = EOF \<and> 0 < length ?ls")
      case True
      let ?r' = "reader\<lparr>pending := []\<rparr>"
      have rb: "readBatch TrimSpace reader = (Inr (map TrimSpace ?ls), ?r')"
        using short True by (simp add: readBatch_spec)
      have rb': "readBatch TrimSpace ?r' = (Inl EOF, ?r')"
        using True B by (simp add: readBatch_spec complete_lines_Nil)
      have "produce TrimSpace ?r' = ([], None)"
        by (subst produce.simps) (simp add: rb')
      then have "produce TrimSpace reader = ([map TrimSpace ?ls], None)"
        by (subst produce.simps) (simp add: rb)
      with True show ?thesis by (simp add: batched_lines_def)
    next
      case False
      with short have rb: "readBatch TrimSpace reader = (Inl (final reader), reader\<lparr>pending := []\<rparr>)"
        by (simp add: readBatch_spec)
      have p: "produce TrimSpace reader = ([], if final reader = EOF then None else Some (final reader))"
        by (subst produce.simps) (simp add: rb)
      have "batched_lines reader = []"
        using False short by (auto simp: batched_lines_def)
      with p show ?thesis by simp
    qed
  qed
qed

lemma countUniqueIPs_spec:
  "countUniqueIPs TrimSpace (Inr reader)
     = Some (card (ordinals (map TrimSpace (batched_lines reader))), None)"
  using produce_spec [of TrimSpace reader]
  by (simp add: countUniqueIPs_def aggregate_New)

section \<open>The claims\<close>

text \<open>
  C1. The claim fails on the code. \<open>ReadString\<close> returns the unterminated last line
  together with \<open>EOF\<close>, and \<open>readBatch\<close> returns the batch built so far without
  appending that line: for the input \<open>10.0.0.1\<close>, newline, \<open>10.0.0.2\<close> the one batch is
  \<open>[10.0.0.1]\<close> and \<open>countUniqueIPs\<close> returns 1, not 2; a file that is the single
  line \<open>10.0.0.2\<close> without a newline yields no batch and the count 0.
\<close>

theorem readBatch_drops_unterminated_line:
  "readBatch asciiTrimSpace \<lparr>pending = ''10.0.0.1\<newline>10.0.0.2'', final = EOF\<rparr>
     = (Inr [''10.0.0.1''], \<lparr>pending = [], final = EOF\<rparr>)
   \<and> countUniqueIPs asciiTrimSpace
         (Inr \<lparr>pending = ''10.0.0.1\<newline>10.0.0.2'', final = EOF\<rparr>)
       = Some (1, None)
   \<and> readBatch asciiTrimSpace \<lparr>pending = ''10.0.0.2'', final = EOF\<rparr>
     = (Inl EOF, \<lparr>pending = [], final = EOF\<rparr>)
   \<and> countUniqueIPs asciiTrimSpace (Inr \<lparr>pending = ''10.0.0.2'', final = EOF\<rparr>)
       = Some (0, None)"
proof -
  let ?r = "\<lparr>pending = ''10.0.0.1\<newline>10.0.0.2'', final = EOF\<rparr>"
  let ?e = "\<lparr>pending = [], final = EOF\<rparr>"
  let ?q = "\<lparr>pending = ''10.0.0.2'', final = EOF\<rparr>"
  have rb: "readBatch asciiTrimSpace ?r = (Inr [''10.0.0.1''], ?e)"
    by (simp add: readBatch_def readBatch_loop.simps ReadString_def BatchSize_def
        asciiTrimSpace_def asciiSpace_def)
  have re: "readBatch asciiTrimSpace ?e = (Inl EOF, ?e)"
    by (simp add: readBatch_def readBatch_loop.simps ReadString_def BatchSize_def)
  have rq: "readBatch asciiTrimSpace ?q = (Inl EOF, ?e)"
    by (simp add: readBatch_def readBatch_loop.simps ReadString_def BatchSize_def)
  have pe: "produce asciiTrimSpace ?e = ([], None)"
    by (subst produce.simps) (simp add: re)
  have pr: "produce asciiTrimSpace ?r = ([[''10.0.0.1'']], None)"
    by (subst produce.simps) (simp add: rb pe)
  have pq: "produce asciiTrimSpace ?q = ([], None)"
    by (subst produce.simps) (simp add: rq)
  have "card (ordinals (concat [[''10.0.0.1'']])) = 1"
    by (simp add: ordinals_def)
  then have a: "aggregate [[''10.0.0.1'']] NewSegmentedBitmap = Some 1"
    by (simp only: aggregate_New)
  have cr: "countUniqueIPs asciiTrimSpace (Inr ?r) = Some (1, None)"
    by (simp add: countUniqueIPs_def pr a)
  have cq: "countUniqueIPs asciiTrimSpace (Inr ?q) = Some (0, None)"
    by (simp add: countUniqueIPs_def pq aggregate_def)
  from rb cr rq cq show ?thesis by (intro conjI)
qed

text \<open>
  C2. On a freshly created bitmap, in every sequence of \<open>MarkIP\<close> calls, no call panics
  and the call at position \<open>k\<close> returns true exactly when its ordinal has not been
  passed by an earlier call of the sequence: the first call for an ordinal returns true
  and every later call for it returns false.
\<close>

theorem MarkIP_first_call_only:
  "\<exists>flags sb'. MarkIP_calls NewSegmentedBitmap ips = Some (flags, sb')
     \<and> length flags = length ips
     \<and> (\<forall>k < length ips. flags ! k = (ips ! k \<notin> set (take k ips)))"
proof -
  from MarkIP_calls_allocated [OF allocated_New, of ips]
  obtain flags sb' where "MarkIP_calls NewSegmentedBitmap ips = Some (flags, sb')"
    and "length flags = length ips"
    and "\<forall>k < length ips. flags ! k = (ips ! k \<notin> marked NewSegmentedBitmap \<union> set (take k ips))"
    by blast
  then show ?thesis by (simp add: marked_New)
qed

theorem MarkIP_first_call_only_witness:
  "\<exists>flags sb'. MarkIP_calls NewSegmentedBitmap [5, 7, 5] = Some (flags, sb')
     \<and> flags = [True, True, False]"
proof -
  from MarkIP_first_call_only [of "[5, 7, 5]"]
  obtain flags sb' where c: "MarkIP_calls NewSegmentedBitmap [5, 7, 5] = Some (flags, sb')"
    and len: "length flags = length [5, 7, 5 :: uint32]"
    and fl: "\<forall>k < length [5, 7, 5 :: uint32].
               flags ! k = ([5, 7, 5 :: uint32] ! k \<notin> set (take k [5, 7, 5]))"
    by blast
  from fl [rule_format, of 0] have f0: "flags ! 0 = True" by simp
  from fl [rule_format, of "Suc 0"] have f1: "flags ! Suc 0 = True" by simp
  from fl [rule_format, of "Suc (Suc 0)"] have f2: "flags ! Suc (Suc 0) = False" by simp
  from len obtain a b c where abc: "flags = [a, b, c]"
    by (auto simp: length_Suc_conv)
  from f0 f1 f2 have "flags = [True, True, False]" unfolding abc by simp
  with c show ?thesis by blast
qed

text \<open>
  C3. Processing any list of batches against one fresh bitmap gives per-batch counts whose
  sum is the number of distinct ordinals of the non-empty lines, and so the same sum for
  every other list of batches holding the same multiset of lines: neither the partition
  into batches nor the order of the batches changes the total.
\<close>

theorem aggregate_order_independent:
  "aggregate batches NewSegmentedBitmap = Some (card (ordinals (concat batches)))
   \<and> (\<forall>batches'. mset (concat batches') = mset (concat batches) \<longrightarrow>
         aggregate batches' NewSegmentedBitmap = aggregate batches NewSegmentedBitmap)"
proof (intro conjI allI impI)
  show "aggregate batches NewSegmentedBitmap = Some (card (ordinals (concat batches)))"
    by (rule aggregate_New)
next
  fix batches'
  assume "mset (concat batches') = mset (concat batches)"
  then have "ordinals (concat batches') = ordinals (concat batches)"
    by (rule ordinals_mset)
  then have "Some (card (ordinals (concat batches'))) = Some (card (ordinals (concat batches)))"
    by (rule arg_cong)
  then show "aggregate batches' NewSegmentedBitmap = aggregate batches NewSegmentedBitmap"
    by (simp only: aggregate_New)
qed

theorem aggregate_order_independent_witness:
  "aggregate [[''10.0.0.1'', ''10.0.0.1''], [''10.0.0.2'', ''''], [''10.0.0.1'']]
     NewSegmentedBitmap = Some 2
   \<and> aggregate [[''10.0.0.1''], ['''', ''10.0.0.1'', ''10.0.0.2'', ''10.0.0.1'']]
     NewSegmentedBitmap = Some 2"
proof -
  let ?a = "[[''10.0.0.1'', ''10.0.0.1''], [''10.0.0.2'', ''''], [''10.0.0.1'']]"
  let ?b = "[[''10.0.0.1''], ['''', ''10.0.0.1'', ''10.0.0.2'', ''10.0.0.1'']]"
  note t = aggregate_order_independent [of ?a]
  have m: "mset (concat ?b) = mset (concat ?a)"
    by (simp add: add_mset_commute)
  have c: "card (ordinals (concat ?a)) = 2"
    by (simp add: ordinals_def ipToInt_10_0_0_1 ipToInt_10_0_0_2 card_insert_if)
  have a: "aggregate ?a NewSegmentedBitmap = Some 2"
    using t [THEN conjunct1] by (simp only: c)
  have "aggregate ?b NewSegmentedBitmap = aggregate ?a NewSegmentedBitmap"
    using t [THEN conjunct2, rule_format, OF m] .
  with a show ?thesis by (simp only: simp_thms)
qed

text \<open>
  C4. For four well-formed octets, \<open>ipToInt\<close> of the dotted quad is the big-endian
  packing of their values, octet \<open>i\<close> shifted left by \<open>8 * (3 - i)\<close> bits; and
  \<open>192.168.0.1\<close>, \<open>0.0.0.0\<close> and \<open>255.255.255.255\<close> are encoded as 3232235521, 0
  and 4294967295.
\<close>

theorem ipToInt_dotted_quad:
  "(octet s0 \<and> octet s1 \<and> octet s2 \<and> octet s3 \<longrightarrow>
      unat (ipToInt (s0 @ ''.'' @ s1 @ ''.'' @ s2 @ ''.'' @ s3))
      = push_bit (8 * 3) (dec_value s0) + push_bit (8 * 2) (dec_value s1)
        + push_bit (8 * 1) (dec_value s2) + push_bit (8 * 0) (dec_value s3))
   \<and> ipToInt ''192.168.0.1'' = 3232235521
   \<and> ipToInt ''0.0.0.0'' = 0
   \<and> ipToInt ''255.255.255.255'' = 4294967295"
proof (intro conjI impI)
  assume "octet s0 \<and> octet s1 \<and> octet s2 \<and> octet s3"
  then have d: "list_all digit s0" "list_all digit s1" "list_all digit s2" "list_all digit s3"
    and v: "dec_value s0 \<le> 255" "dec_value s1 \<le> 255" "dec_value s2 \<le> 255"
      "dec_value s3 \<le> 255"
    by (simp_all add: octet_def)
  have "unat (ipToInt (s0 @ ''.'' @ s1 @ ''.'' @ s2 @ ''.'' @ s3))
      = dec_value s0 * 16777216 + dec_value s1 * 65536 + dec_value s2 * 256 + dec_value s3"
    by (simp only: ipToInt_quad [OF d] unat_quad [OF v])
  then show "unat (ipToInt (s0 @ ''.'' @ s1 @ ''.'' @ s2 @ ''.'' @ s3))
      = push_bit (8 * 3) (dec_value s0) + push_bit (8 * 2) (dec_value s1)
        + push_bit (8 * 1) (dec_value s2) + push_bit (8 * 0) (dec_value s3)"
    by (simp add: push_bit_eq_mult)
next
  show "ipToInt ''192.168.0.1'' = 3232235521"
    by (simp add: ipToInt_def segment_value_def shift_count_def shl32_def decoderune_def
        BitsInByte_def)
  show "ipToInt ''0.0.0.0'' = 0"
    by (simp add: ipToInt_def segment_value_def shift_count_def shl32_def decoderune_def
        BitsInByte_def)
  show "ipToInt ''255.255.255.255'' = 4294967295"
    by (simp add: ipToInt_def segment_value_def shift_count_def shl32_def decoderune_def
        BitsInByte_def)
qed

theorem ipToInt_dotted_quad_witness:
  "octet ''172'' \<and> octet ''016'' \<and> octet ''254'' \<and> octet ''9''
   \<and> unat (ipToInt ''172.016.254.9'') = 2886794761"
proof -
  have o: "octet ''172'' \<and> octet ''016'' \<and> octet ''254'' \<and> octet ''9''"
    by (simp add: octet_def digit_def)
  from ipToInt_dotted_quad [of "''172''" "''016''" "''254''" "''9''", THEN conjunct1, rule_format, OF o]
  have "unat (ipToInt ''172.016.254.9'') = 2886794761"
    by (simp add: push_bit_eq_mult)
  with o show ?thesis by (intro conjI) simp_all
qed

text \<open>
  C5. The index computation of \<open>MarkIP\<close> sends every ordinal to a triple that is in
  bounds (segment below 256, byte below \<open>BytesPerSegment\<close>, bit below 8); two ordinals
  with the same triple are equal; every in-bounds triple is the triple of some ordinal;
  and segment \<open>s\<close> holds exactly the ordinals from \<open>s * 2^24\<close> up to, not including,
  \<open>(s + 1) * 2^24\<close>, so the segments' ranges partition the ordinals.
\<close>

theorem segment_coverage:
  "unat (segmentIndex ip) < BitmapSegments
   \<and> unat (byteIndex ip) < BytesPerSegment
   \<and> unat (bitOffset ip) < BitsInByte
   \<and> (segmentIndex ip = segmentIndex ip' \<and> byteIndex ip = byteIndex ip'
        \<and> bitOffset ip = bitOffset ip' \<longrightarrow> ip = ip')
   \<and> (s < BitmapSegments \<and> b < BytesPerSegment \<and> k < BitsInByte \<longrightarrow>
        (\<exists>ip''. unat (segmentIndex ip'') = s \<and> unat (byteIndex ip'') = b
           \<and> unat (bitOffset ip'') = k))
   \<and> (unat (segmentIndex ip) = s \<longleftrightarrow>
        s * (MaxIP div BitmapSegments) \<le> unat ip \<and> unat ip < (s + 1) * (MaxIP div BitmapSegments))"
proof (intro conjI impI)
  show "unat (segmentIndex ip) < BitmapSegments" by (rule segmentIndex_bound)
  show "unat (byteIndex ip) < BytesPerSegment" by (rule byteIndex_bound)
  show "unat (bitOffset ip) < BitsInByte" by (rule bitOffset_bound)
next
  assume "segmentIndex ip = segmentIndex ip' \<and> byteIndex ip = byteIndex ip'
    \<and> bitOffset ip = bitOffset ip'"
  then show "ip = ip'" by (blast intro: locate_inj)
next
  assume "s < BitmapSegments \<and> b < BytesPerSegment \<and> k < BitsInByte"
  then have "s < 256" "b < 2097152" "k < 8"
    by (simp_all add: BitmapSegments_def BytesPerSegment_def MaxIP_def BitsInByte_def)
  then show "\<exists>ip''. unat (segmentIndex ip'') = s \<and> unat (byteIndex ip'') = b
           \<and> unat (bitOffset ip'') = k"
    by (rule locate_surj)
next
  have "MaxIP div BitmapSegments = 16777216"
    by (simp add: MaxIP_def BitmapSegments_def)
  then show "unat (segmentIndex ip) = s \<longleftrightarrow>
        s * (MaxIP div BitmapSegments) \<le> unat ip \<and> unat ip < (s + 1) * (MaxIP div BitmapSegments)"
    using segment_range [of ip s] by (simp only:)
qed

theorem segment_coverage_witness:
  "segmentIndex 3232235521 = 192 \<and> byteIndex 3232235521 = 1376256
   \<and> bitOffset 3232235521 = 1
   \<and> unat (segmentIndex 3232235521) < BitmapSegments
   \<and> unat (byteIndex 3232235521) < BytesPerSegment
   \<and> unat (bitOffset 3232235521) < BitsInByte
   \<and> (\<exists>ip''. unat (segmentIndex ip'') = 255 \<and> unat (byteIndex ip'') = 2097151
         \<and> unat (bitOffset ip'') = 7)
   \<and> 192 * (MaxIP div BitmapSegments) \<le> unat (3232235521 :: uint32)
   \<and> unat (3232235521 :: uint32) < 193 * (MaxIP div BitmapSegments)"
proof -
  note t = segment_coverage [of 3232235521 3232235521 255 2097151 7]
  have e: "segmentIndex 3232235521 = 192" "byteIndex 3232235521 = 1376256"
    "bitOffset 3232235521 = 1"
    by (simp_all add: segmentIndex_def byteIndex_def bitOffset_def localIP_def MaxIP_def
        BitmapSegments_def BitsInByte_def)
  have h: "(255::nat) < BitmapSegments \<and> (2097151::nat) < BytesPerSegment \<and> (7::nat) < BitsInByte"
    by (simp add: BitmapSegments_def BytesPerSegment_def MaxIP_def BitsInByte_def)
  from t h have ex: "\<exists>ip''. unat (segmentIndex ip'') = 255 \<and> unat (byteIndex ip'') = 2097151
         \<and> unat (bitOffset ip'') = 7"
    by blast
  from t have b: "unat (segmentIndex 3232235521) < BitmapSegments"
    "unat (byteIndex 3232235521) < BytesPerSegment"
    "unat (bitOffset 3232235521) < BitsInByte"
    by blast+
  have r: "192 * (MaxIP div BitmapSegments) \<le> unat (3232235521 :: uint32)"
    "unat (3232235521 :: uint32) < 193 * (MaxIP div BitmapSegments)"
    by (simp_all add: MaxIP_def BitmapSegments_def)
  from e ex b r show ?thesis by (intro conjI)
qed

text \<open>
  C6, as stated, fails on the code: a line that was read into the batch being filled
  when the read error occurs is not counted. After the one complete line \<open>10.0.0.1\<close> the
  file reports a read error; \<open>readBatch\<close> returns the error without the batch, no batch
  is produced, and \<open>countUniqueIPs\<close> returns 0 with a nil error, although one line with
  one ordinal had been read.
\<close>

theorem read_error_drops_partial_batch:
  "final \<lparr>pending = ''10.0.0.1\<newline>'', final = ReadFailure ''input/output error''\<rparr>
     \<noteq> EOF
   \<and> complete_lines (''10.0.0.1\<newline>'') = [''10.0.0.1\<newline>'']
   \<and> card (ordinals (map asciiTrimSpace (complete_lines (''10.0.0.1\<newline>'')))) = 1
   \<and> readBatch asciiTrimSpace
         \<lparr>pending = ''10.0.0.1\<newline>'', final = ReadFailure ''input/output error''\<rparr>
       = (Inl (ReadFailure ''input/output error''),
          \<lparr>pending = [], final = ReadFailure ''input/output error''\<rparr>)
   \<and> countUniqueIPs asciiTrimSpace
         (Inr \<lparr>pending = ''10.0.0.1\<newline>'', final = ReadFailure ''input/output error''\<rparr>)
       = Some (0, None)"
proof -
  let ?r = "\<lparr>pending = ''10.0.0.1\<newline>'', final = ReadFailure ''input/output error''\<rparr>"
  have cl: "complete_lines (''10.0.0.1\<newline>'') = [''10.0.0.1\<newline>'']"
    by (simp add: complete_lines.simps)
  have cd: "card (ordinals (map asciiTrimSpace (complete_lines (''10.0.0.1\<newline>'')))) = 1"
    unfolding cl by (simp add: ordinals_def asciiTrimSpace_def asciiSpace_def)
  have rb: "readBatch asciiTrimSpace ?r
      = (Inl (ReadFailure ''input/output error''),
         \<lparr>pending = [], final = ReadFailure ''input/output error''\<rparr>)"
    by (simp add: readBatch_def readBatch_loop.simps ReadString_def BatchSize_def)
  have p: "produce asciiTrimSpace ?r = ([], Some (ReadFailure ''input/output error''))"
    by (subst produce.simps) (simp add: rb)
  have c: "countUniqueIPs asciiTrimSpace (Inr ?r) = Some (0, None)"
    by (simp add: countUniqueIPs_def p aggregate_def)
  have f: "final ?r \<noteq> EOF" by simp
  from f cl cd rb c show ?thesis by (intro conjI)
qed

text \<open>
  C6, amended. When the file reports a read error other than end-of-stream, the producer
  logs it and stops, and \<open>countUniqueIPs\<close> returns a nil error together with the number
  of distinct ordinals of the non-empty lines of the full batches read before the error:
  of the newline-terminated lines before the error, the first
  \<open>n div BatchSize * BatchSize\<close>. The lines read into the batch that was being filled
  are not counted.
\<close>

theorem read_error_counts_full_batches:
  "final reader \<noteq> EOF \<Longrightarrow>
     countUniqueIPs TrimSpace (Inr reader)
       = Some (card (ordinals (map TrimSpace
            (take (length (complete_lines (pending reader)) div BatchSize * BatchSize)
               (complete_lines (pending reader))))), None)
     \<and> snd (produce TrimSpace reader) = Some (final reader)"
  using produce_spec [of TrimSpace reader] countUniqueIPs_spec [of TrimSpace reader]
  by (simp add: batched_lines_def)

theorem read_error_counts_full_batches_witness:
  "final \<lparr>pending = ''10.0.0.1\<newline>10.0.0.2\<newline>10.0'',
          final = ReadFailure ''input/output error''\<rparr> \<noteq> EOF
   \<and> countUniqueIPs asciiTrimSpace
         (Inr \<lparr>pending = ''10.0.0.1\<newline>10.0.0.2\<newline>10.0'',
               final = ReadFailure ''input/output error''\<rparr>) = Some (0, None)
   \<and> snd (produce asciiTrimSpace
         \<lparr>pending = ''10.0.0.1\<newline>10.0.0.2\<newline>10.0'',
           final = ReadFailure ''input/output error''\<rparr>)
       = Some (ReadFailure ''input/output error'')"
proof -
  let ?r = "\<lparr>pending = ''10.0.0.1\<newline>10.0.0.2\<newline>10.0'',
             final = ReadFailure ''input/output error''\<rparr>"
  have f: "final ?r \<noteq> EOF" by simp
  have "length (complete_lines (pending ?r)) = 2"
    by (simp add: complete_lines.simps)
  then have z: "length (complete_lines (pending ?r)) div BatchSize * BatchSize = 0"
    by (simp add: BatchSize_def)
  note t = read_error_counts_full_batches [OF f, of asciiTrimSpace, unfolded z]
  from t have "countUniqueIPs asciiTrimSpace (Inr ?r) = Some (0, None)"
    by (simp add: ordinals_def)
  moreover from t have "snd (produce asciiTrimSpace ?r) = Some (ReadFailure ''input/output error'')"
    by (simp)
  ultimately show ?thesis using f by (intro conjI)
qed

text \<open>
  C7. \<open>ipToInt\<close> is a total function that rejects nothing: the out-of-range line
  \<open>256.0.0.1\<close> is encoded, its first octet wraps to 0 modulo \<open>2^32\<close>, and its ordinal is
  that of the well-formed address \<open>0.0.0.1\<close>; a batch holding both lines counts one
  address.
\<close>

theorem ipToInt_collision:
  "ipToInt ''256.0.0.1'' = ipToInt ''0.0.0.1''
   \<and> ipToInt ''0.0.0.1'' = 1
   \<and> ''256.0.0.1'' \<noteq> ''0.0.0.1''
   \<and> aggregate [[''0.0.0.1'', ''256.0.0.1'']] NewSegmentedBitmap = Some 1"
proof -
  have a: "ipToInt ''256.0.0.1'' = 1"
    by (simp add: ipToInt_def segment_value_def shift_count_def shl32_def decoderune_def
        BitsInByte_def)
  have b: "ipToInt ''0.0.0.1'' = 1"
    by (simp add: ipToInt_def segment_value_def shift_count_def shl32_def decoderune_def
        BitsInByte_def)
  have "card (ordinals (concat [[''0.0.0.1'', ''256.0.0.1'']])) = 1"
    by (simp add: ordinals_def a b)
  then have "aggregate [[''0.0.0.1'', ''256.0.0.1'']] NewSegmentedBitmap = Some 1"
    by (simp only: aggregate_New)
  with a b show ?thesis by simp
qed

text \<open>
  C8. \<open>NewSegmentedBitmap\<close> creates 256 segments of \<open>BytesPerSegment = 2^21\<close> zero bytes:
  \<open>2^29\<close> bytes, that is \<open>2^32\<close> bits, in all. The value takes no input, and the
  bitmap still has \<open>2^29\<close> bytes after any list of batches has been processed.
\<close>

theorem NewSegmentedBitmap_size:
  "segments NewSegmentedBitmap = replicate 256 (replicate 2097152 0)
   \<and> length (segments NewSegmentedBitmap) = 256
   \<and> sum_list (map length (segments NewSegmentedBitmap)) = 2 ^ 29
   \<and> BitsInByte * sum_list (map length (segments NewSegmentedBitmap)) = MaxIP
   \<and> (\<exists>results sb'. worker batches NewSegmentedBitmap = Some (results, sb')
         \<and> sum_list (map length (segments sb')) = 2 ^ 29)"
proof -
  have n: "BitmapSegments * BytesPerSegment = 2 ^ 29"
    by (simp add: BitmapSegments_def BytesPerSegment_def MaxIP_def BitsInByte_def)
  have s: "sum_list (map length (segments NewSegmentedBitmap)) = 2 ^ 29"
    using sum_length_allocated [OF allocated_New] by (simp only: n)
  from worker_allocated [OF allocated_New, of batches]
  obtain results sb' where w: "worker batches NewSegmentedBitmap = Some (results, sb')"
    and "allocated sb'"
    by blast
  then have "sum_list (map length (segments sb')) = 2 ^ 29"
    using sum_length_allocated [of sb'] by (simp only: n)
  with w have "\<exists>results sb'. worker batches NewSegmentedBitmap = Some (results, sb')
         \<and> sum_list (map length (segments sb')) = 2 ^ 29"
    by blast
  moreover have "segments NewSegmentedBitmap = replicate 256 (replicate 2097152 0)"
    by (simp add: NewSegmentedBitmap_def BitmapSegments_def BytesPerSegment_def MaxIP_def
        BitsInByte_def)
  moreover have "length (segments NewSegmentedBitmap) = 256"
    by (simp add: NewSegmentedBitmap_def BitmapSegments_def)
  moreover have "BitsInByte * sum_list (map length (segments NewSegmentedBitmap)) = MaxIP"
    unfolding s by (simp add: BitsInByte_def MaxIP_def)
  ultimately show ?thesis using s by blast
qed

text \<open>
  C9. On any bitmap, \<open>processBatch\<close> of a batch that holds only empty strings returns
  the count 0 and a nil error, and the bitmap it leaves is the one it was given.
\<close>

theorem processBatch_empty_lines:
  "list_all (\<lambda>ip. ip = []) batch \<Longrightarrow> processBatch batch sb = Some ((0, None), sb)"
  by (simp add: processBatch_def processBatch_loop_empty)

theorem processBatch_empty_lines_witness:
  "list_all (\<lambda>ip. ip = []) ['''', '''', '''']
   \<and> processBatch ['''', '''', ''''] (Cleanup NewSegmentedBitmap)
       = Some ((0, None), Cleanup NewSegmentedBitmap)"
  using processBatch_empty_lines [of "['''', '''', '''']" "Cleanup NewSegmentedBitmap"]
  by simp

text \<open>
  C10. A call of \<open>MarkIP\<close> that returns, whatever flag it returns, keeps the number of
  segments and the length of every segment, leaves every byte other than the one at
  (\<open>segmentIndex\<close>, \<open>byteIndex\<close>) of its ordinal as it was, and within that byte leaves
  every bit other than \<open>bitOffset\<close> as it was.
\<close>

theorem MarkIP_frame:
  "MarkIP sb ip = Some (fresh, sb') \<Longrightarrow>
     length (segments sb') = length (segments sb)
     \<and> (\<forall>s < length (segments sb). length (segments sb' ! s) = length (segments sb ! s))
     \<and> (\<forall>s b. s < length (segments sb) \<and> b < length (segments sb ! s)
            \<and> (s, b) \<noteq> (unat (segmentIndex ip), unat (byteIndex ip)) \<longrightarrow>
            segments sb' ! s ! b = segments sb ! s ! b)
     \<and> (\<forall>k. k \<noteq> unat (bitOffset ip) \<longrightarrow>
            bit (segments sb' ! unat (segmentIndex ip) ! unat (byteIndex ip)) k
            = bit (segments sb ! unat (segmentIndex ip) ! unat (byteIndex ip)) k)"
proof -
  assume m: "MarkIP sb ip = Some (fresh, sb')"
  note r = MarkIP_Some [OF m]
  from r(3) show ?thesis
  proof
    assume "sb' = sb"
    then show ?thesis by simp
  next
    assume "sb' = set_bit_at sb ip"
    with r(1,2) show ?thesis
      by (simp add: set_bit_at_length set_bit_at_length_nth set_bit_at_other_byte
          set_bit_at_other_bit)
  qed
qed

theorem MarkIP_frame_witness:
  "\<exists>sb'. MarkIP NewSegmentedBitmap 3232235521 = Some (True, sb')
     \<and> length (segments sb') = 256
     \<and> segments sb' ! 192 ! 1376255 = 0
     \<and> segments sb' ! 7 ! 0 = 0
     \<and> \<not> bit (segments sb' ! 192 ! 1376256) 0"
proof -
  let ?ip = "3232235521 :: uint32"
  have e: "unat (segmentIndex ?ip) = 192" "unat (byteIndex ?ip) = 1376256"
    "unat (bitOffset ?ip) = 1"
    by (simp_all add: segmentIndex_def byteIndex_def bitOffset_def localIP_def MaxIP_def
        BitmapSegments_def BitsInByte_def)
  have m: "MarkIP NewSegmentedBitmap ?ip = Some (True, set_bit_at NewSegmentedBitmap ?ip)"
    using MarkIP_new [OF allocated_New, of ?ip] by (simp add: marked_New)
  note t = MarkIP_frame [OF m, unfolded e]
  have n: "segments NewSegmentedBitmap = replicate 256 (replicate 2097152 0)"
    by (simp add: NewSegmentedBitmap_def BitmapSegments_def BytesPerSegment_def MaxIP_def
        BitsInByte_def)
  from t have "length (segments (set_bit_at NewSegmentedBitmap ?ip)) = 256"
    by (simp add: n)
  moreover from t [THEN conjunct2, THEN conjunct2, THEN conjunct1, rule_format, of 192 1376255]
  have "segments (set_bit_at NewSegmentedBitmap ?ip) ! 192 ! 1376255 = 0"
    by (simp add: n)
  moreover from t [THEN conjunct2, THEN conjunct2, THEN conjunct1, rule_format, of 7 0]
  have "segments (set_bit_at NewSegmentedBitmap ?ip) ! 7 ! 0 = 0"
    by (simp add: n)
  moreover from t [THEN conjunct2, THEN conjunct2, THEN conjunct2, rule_format, of 0]
  have "\<not> bit (segments (set_bit_at NewSegmentedBitmap ?ip) ! 192 ! 1376256) 0"
    by (simp add: n)
  ultimately show ?thesis using m by blast
qed

end
